theory Spec2Isabelle
  imports Main "HOL-Library.Word" "HOL-Library.Sublist"
begin

unbundle bit_operations_syntax

section \<open>JavaScript values and strings\<close>

text \<open>
  A JavaScript string is modelled as an Isabelle \<open>string\<close>: a list of characters
  whose code units are below 256. A value that may be \<open>undefined\<close> (a missing field,
  a missing argument, a hole of an array) is an \<open>option\<close>, with \<open>None\<close> for
  \<open>undefined\<close>. The exceptions of the modelled code are the \<open>TypeError\<close> of a
  method call on \<open>undefined\<close> and the failure of a request to the backend.
\<close>

datatype js_error = TypeError | NetworkError string

text \<open>The idiom \<^verbatim>\<open>x || ""\<close> on a string that may be missing.\<close>

definition or_empty :: "string option \<Rightarrow> string" where
  "or_empty x = (case x of None \<Rightarrow> [] | Some s \<Rightarrow> s)"

text \<open>
  The class \<^verbatim>\<open>\s\<close> of a regular expression, which is also what \<^verbatim>\<open>trim\<close> strips:
  tab, line feed, vertical tab, form feed, carriage return, space and no-break space
  are its members below 256.
\<close>

definition is_space :: "char \<Rightarrow> bool" where
  "is_space c =
     (c = CHR 0x09 \<or> c = CHR 0x0A \<or> c = CHR 0x0B \<or> c = CHR 0x0C \<or> c = CHR 0x0D
      \<or> c = CHR '' '' \<or> c = CHR 0xA0)"

text \<open>
  \<^verbatim>\<open>toLowerCase\<close> on one code unit below 256: the letters \<open>A\<close> to \<open>Z\<close> (65 to 90)
  and the accented capitals 192 to 222 (but the multiplication sign 215) move up by 32.
\<close>

definition to_lower :: "char \<Rightarrow> char" where
  "to_lower c =
     (let n = (of_char c :: nat)
      in if (65 \<le> n \<and> n \<le> 90) \<or> (192 \<le> n \<and> n \<le> 222 \<and> n \<noteq> 215)
         then char_of (n + 32)
         else c)"

definition toLowerCase :: "string \<Rightarrow> string" where
  "toLowerCase s = map to_lower s"

definition trim :: "string \<Rightarrow> string" where
  "trim s = rev (dropWhile is_space (rev (dropWhile is_space s)))"

text \<open>
  \<^verbatim>\<open>replace(/-\s*\n/g, "")\<close>. A match starts at a hyphen; the greedy \<^verbatim>\<open>\s*\<close> takes
  the whole run of white space after it and gives characters back until a line feed
  follows, so the match ends at the last line feed of the run. \<open>break_len cs\<close> is the
  length of what \<^verbatim>\<open>\s*\n\<close> matches at the start of \<open>cs\<close>, if it matches.
\<close>

definition break_len :: "string \<Rightarrow> nat option" where
  "break_len cs =
     (let ws = takeWhile is_space cs
      in if CHR 0x0A \<in> set ws
         then Some (length ws - length (takeWhile (\<lambda>c. c \<noteq> CHR 0x0A) (rev ws)))
         else None)"

function strip_hyphen_breaks :: "string \<Rightarrow> string" where
  "strip_hyphen_breaks [] = []"
| "strip_hyphen_breaks (c # cs) =
     (if c = CHR ''-''
      then (case break_len cs of
              Some n \<Rightarrow> strip_hyphen_breaks (drop n cs)
            | None \<Rightarrow> c # strip_hyphen_breaks cs)
      else c # strip_hyphen_breaks cs)"
  by pat_completeness auto
termination
  by (relation "measure length") auto

text \<open>\<^verbatim>\<open>replace(/\s+/g, " ")\<close>: every maximal run of white space becomes one space.\<close>

function collapse_spaces :: "string \<Rightarrow> string" where
  "collapse_spaces [] = []"
| "collapse_spaces (c # cs) =
     (if is_space c then CHR '' '' # collapse_spaces (dropWhile is_space cs)
      else c # collapse_spaces cs)"
  by pat_completeness auto
termination
  by (relation "measure length") (auto simp: length_dropWhile_le less_Suc_eq_le)

text \<open>\<^verbatim>\<open>split(" ")\<close>: the pieces between single spaces; the empty string gives one empty piece.\<close>

function split_space :: "string \<Rightarrow> string list" where
  "split_space s =
     (case dropWhile (\<lambda>c. c \<noteq> CHR '' '') s of
        [] \<Rightarrow> [s]
      | _ # rest \<Rightarrow> takeWhile (\<lambda>c. c \<noteq> CHR '' '') s # split_space rest)"
  by pat_completeness auto
termination
proof (relation "measure length")
  fix s :: string and x rest
  assume "dropWhile (\<lambda>c. c \<noteq> CHR '' '') s = x # rest"
  then have "length (x # rest) \<le> length s"
    by (metis length_dropWhile_le)
  then show "(rest, s) \<in> measure length" by simp
qed simp

text \<open>\<^verbatim>\<open>s.includes(w)\<close>: \<open>w\<close> occurs in \<open>s\<close> as a contiguous piece.\<close>

fun str_includes :: "string \<Rightarrow> string \<Rightarrow> bool" where
  "str_includes [] w = (w = [])"
| "str_includes (c # cs) w = (prefix w (c # cs) \<or> str_includes cs w)"

text \<open>
  A string in which white space occurs only as single spaces: every white-space
  character is a space, and the character after it is not white space.
\<close>

fun single_spaced :: "string \<Rightarrow> bool" where
  "single_spaced [] = True"
| "single_spaced [c] = (is_space c \<longrightarrow> c = CHR '' '')"
| "single_spaced (c # d # cs) =
     ((is_space c \<longrightarrow> c = CHR '' '' \<and> \<not> is_space d) \<and> single_spaced (d # cs))"

section \<open>The normalizer (CmcViewer)\<close>

text \<open>
  The chain \<^verbatim>\<open>.replace(/-\s*\n/g, "").replace(/\s+/g, " ").toLowerCase().trim()\<close>
  on a string.
\<close>

definition normalize_chain :: "string \<Rightarrow> string" where
  "normalize_chain s = trim (toLowerCase (collapse_spaces (strip_hyphen_breaks s)))"

text \<open>
  \<^verbatim>\<open>function normalize(text) { return text.replace(...)... }\<close>: the first method call
  raises a \<open>TypeError\<close> when \<open>text\<close> is \<open>undefined\<close>.
\<close>

definition normalize :: "string option \<Rightarrow> js_error + string" where
  "normalize text =
     (case text of
        None \<Rightarrow> Inl TypeError
      | Some s \<Rightarrow> Inr (normalize_chain s))"

section \<open>The inline diff (DiffInline)\<close>

record segment =
  op :: string
  orig :: "string option"
  suggested :: "string option"

datatype decision = Accepted | Rejected | Pending

text \<open>
  The array \<open>states\<close> of the component. A cell that was never written reads as
  \<open>undefined\<close>, and so does every index from the length on.
\<close>

type_synonym states = "decision option list"

definition state_at :: "states \<Rightarrow> nat \<Rightarrow> decision option" where
  "state_at sts idx = (if idx < length sts then sts ! idx else None)"

text \<open>The states set when new segments arrive.\<close>

definition init_states :: "segment list \<Rightarrow> states" where
  "init_states diffSegments =
     map (\<lambda>seg. Some (if op seg = ''equal'' then Accepted else Pending)) diffSegments"

text \<open>What one pass of the \<^verbatim>\<open>switch\<close> appends to \<open>finalText\<close>.\<close>

definition emit :: "segment \<Rightarrow> decision option \<Rightarrow> string" where
  "emit seg st =
     (if op seg = ''equal'' then or_empty (orig seg)
      else if op seg = ''delete'' then
        (if st = Some Rejected \<or> st = Some Pending then or_empty (orig seg) else [])
      else if op seg = ''replace'' then
        (if st = Some Accepted then or_empty (suggested seg) else or_empty (orig seg))
      else if op seg = ''insert'' then
        (if st = Some Accepted then or_empty (suggested seg) else [])
      else or_empty (orig seg))"

text \<open>The \<^verbatim>\<open>forEach\<close> over the segments with their indices, appending to \<open>finalText\<close>.\<close>

fun final_loop :: "segment list \<Rightarrow> nat \<Rightarrow> states \<Rightarrow> string \<Rightarrow> string" where
  "final_loop [] idx sts finalText = finalText"
| "final_loop (seg # segs) idx sts finalText =
     final_loop segs (Suc idx) sts (finalText @ emit seg (state_at sts idx))"

definition computeFinalText :: "segment list \<Rightarrow> states \<Rightarrow> string" where
  "computeFinalText diffSegments sts = final_loop diffSegments 0 sts []"

text \<open>
  The effect that sends the text upwards: it returns early, sending nothing, when the
  parent gave no \<open>onTextChange\<close> or when there are no segments. The result is what
  \<open>onTextChange\<close> receives.
\<close>

definition final_text_effect :: "bool \<Rightarrow> segment list \<Rightarrow> states \<Rightarrow> string option" where
  "final_text_effect onTextChange diffSegments sts =
     (if \<not> onTextChange \<or> diffSegments = [] then None
      else Some (computeFinalText diffSegments sts))"

text \<open>
  \<^verbatim>\<open>const next = [...prev]; next[idx] = newState\<close>: a write past the end extends the
  array, leaving holes in between.
\<close>

definition set_index :: "states \<Rightarrow> nat \<Rightarrow> decision \<Rightarrow> states" where
  "set_index prev idx newState =
     (if idx < length prev then prev[idx := Some newState]
      else prev @ replicate (idx - length prev) None @ [Some newState])"

text \<open>
  The component's state as \<open>updateState\<close> sees it: the decisions, and the events sent
  to the log (name, operation, index).
\<close>

record diff_inline =
  states :: states
  logged :: "(string \<times> string \<times> nat) list"

definition updateState ::
  "nat \<Rightarrow> decision \<Rightarrow> segment \<Rightarrow> string \<Rightarrow> diff_inline \<Rightarrow> diff_inline" where
  "updateState idx newState seg actionType c =
     (let c1 = (if actionType = ''accept''
                then c\<lparr>logged := logged c @ [(''diff_accept'', op seg, idx)]\<rparr>
                else if actionType = ''reject''
                then c\<lparr>logged := logged c @ [(''diff_reject'', op seg, idx)]\<rparr>
                else c)
      in c1\<lparr>states := set_index (states c1) idx newState\<rparr>)"

text \<open>
  The buttons the component renders for a segment in a state, as the calls of
  \<open>updateState\<close> they make (new state, action type): an equal segment, an accepted or
  rejected one and one of an unknown operation have none.
\<close>

definition controls :: "segment \<Rightarrow> decision option \<Rightarrow> (decision \<times> string) list" where
  "controls seg st =
     (if op seg = ''equal'' then []
      else if op seg = ''delete'' \<or> op seg = ''replace'' \<or> op seg = ''insert'' then
        (if st = Some Accepted then []
         else if st = Some Rejected then []
         else [(Accepted, ''accept''), (Rejected, ''reject'')])
      else [])"

text \<open>
  A click on a button of segment \<open>idx\<close>: \<open>None\<close> when the component renders no such
  button.
\<close>

definition click ::
  "segment list \<Rightarrow> nat \<times> decision \<times> string \<Rightarrow> diff_inline \<Rightarrow> diff_inline option" where
  "click diffSegments b c =
     (case b of (idx, newState, actionType) \<Rightarrow>
        if idx < length diffSegments
           \<and> (newState, actionType) \<in> set (controls (diffSegments ! idx) (state_at (states c) idx))
        then Some (updateState idx newState (diffSegments ! idx) actionType c)
        else None)"

fun clicks ::
  "segment list \<Rightarrow> (nat \<times> decision \<times> string) list \<Rightarrow> diff_inline \<Rightarrow> diff_inline option" where
  "clicks diffSegments [] c = Some c"
| "clicks diffSegments (b # bs) c =
     (case click diffSegments b c of
        None \<Rightarrow> None
      | Some c' \<Rightarrow> clicks diffSegments bs c')"

text \<open>
  The invariant of the clicks: one decision per segment, and every equal segment
  accepted.
\<close>

definition equal_kept :: "segment list \<Rightarrow> diff_inline \<Rightarrow> bool" where
  "equal_kept segs c \<longleftrightarrow>
     length (states c) = length segs \<and>
     (\<forall>i<length segs. op (segs ! i) = ''equal'' \<longrightarrow> state_at (states c) i = Some Accepted)"

section \<open>The page locator (App)\<close>

record page =
  page_number :: int
  page_text :: "string option"

record document =
  num_pages :: nat
  pages :: "page list option"

text \<open>
  \<^verbatim>\<open>contextNorm.split(" ").filter((w) => w.length > 5)\<close> on the normalized section
  text.
\<close>

definition tokens_of :: "string option \<Rightarrow> string list" where
  "tokens_of sectionText =
     filter (\<lambda>w. length w > 5) (split_space (normalize_chain (or_empty sectionText)))"

text \<open>The score of a page: how many tokens its normalized text includes.\<close>

definition page_score :: "string list \<Rightarrow> page \<Rightarrow> nat" where
  "page_score tokens p =
     (let pageNorm = normalize_chain (or_empty (page_text p))
      in length (filter (\<lambda>w. str_includes pageNorm w) tokens))"

text \<open>The loop over the pages, on the pair of \<open>bestPage\<close> and \<open>bestScore\<close>.\<close>

fun best_loop :: "string list \<Rightarrow> page list \<Rightarrow> int option \<times> nat \<Rightarrow> int option \<times> nat" where
  "best_loop tokens [] best = best"
| "best_loop tokens (p # ps) (bestPage, bestScore) =
     (let score = page_score tokens p
      in if score > bestScore then best_loop tokens ps (Some (page_number p), score)
         else best_loop tokens ps (bestPage, bestScore))"

text \<open>
  \<open>detectMatchedPage\<close>; \<open>None\<close> is its \<open>null\<close>. The operations inside its
  \<^verbatim>\<open>try\<close> raise nothing on values of these types, so the \<^verbatim>\<open>catch\<close> has no branch here.
\<close>

definition detectMatchedPage :: "string option \<Rightarrow> document option \<Rightarrow> int option" where
  "detectMatchedPage sectionText documentData =
     (case documentData of
        None \<Rightarrow> None
      | Some d \<Rightarrow>
          (case pages d of
             None \<Rightarrow> None
           | Some ps \<Rightarrow>
               if sectionText = None \<or> sectionText = Some [] then None
               else let tokens = tokens_of sectionText
                    in if length tokens = 0 then None
                       else fst (best_loop tokens ps (None, 0))))"

text \<open>The pages the locator sees: none when the document or its page list is missing.\<close>

definition pages_of :: "document option \<Rightarrow> page list" where
  "pages_of documentData =
     (case documentData of
        None \<Rightarrow> []
      | Some d \<Rightarrow> (case pages d of None \<Rightarrow> [] | Some ps \<Rightarrow> ps))"

section \<open>The highlight handler (App)\<close>

text \<open>
  \<open>hashKey\<close>, the djb2 hash. The operator \<^verbatim>\<open>^\<close> takes both operands modulo \<open>2^32\<close>, and
  \<open>h * 33\<close> is exact before that, so \<open>h\<close> is a 32-bit word; \<^verbatim>\<open>h >>> 0\<close> reads it as
  unsigned and \<^verbatim>\<open>toString(36)\<close> writes it with the digits \<open>0\<close> to \<open>9\<close> and \<open>a\<close> to \<open>z\<close>.
\<close>

definition digit36 :: "nat \<Rightarrow> char" where
  "digit36 d = ''0123456789abcdefghijklmnopqrstuvwxyz'' ! d"

function toString36 :: "nat \<Rightarrow> string" where
  "toString36 n = (if n < 36 then [digit36 n] else toString36 (n div 36) @ [digit36 (n mod 36)])"
  by pat_completeness auto
termination
  by (relation "measure id") auto

definition hashKey :: "string \<Rightarrow> string" where
  "hashKey str =
     toString36 (unat (fold (\<lambda>c h. (h * 33) XOR of_nat (of_char c)) str (5381 :: 32 word)))"

text \<open>
  A URL shown by the viewer is a path of the site or an object URL;
  \<^verbatim>\<open>URL.createObjectURL\<close> gives a new object URL at every call, and the browser keeps the
  blob each one stands for.
\<close>

datatype url = Path string | ObjectUrl nat

type_synonym blob = string

record cache_entry =
  blobUrl :: url
  cached_text :: string

text \<open>
  The state the handler works on: the two React states it sets, the cache (a \<open>Map\<close>
  held in a ref), the blobs registered by \<^verbatim>\<open>URL.createObjectURL\<close>, the bodies of the
  requests posted to \<^verbatim>\<open>/cmc/highlight\<close> so far, the requests among them that have not been
  answered (by their position in \<open>posted\<close>), the timers set and not yet fired, and what
  was written to the console.
\<close>

record app =
  pdfBlobUrl :: url
  isHighlighting :: bool
  highlightCache :: "string \<rightharpoonup> cache_entry"
  objectUrls :: "blob list"
  posted :: "string list"
  awaiting :: "nat list"
  timers :: nat
  console :: "string list"

definition createObjectURL :: "blob \<Rightarrow> app \<Rightarrow> url \<times> app" where
  "createObjectURL b st = (ObjectUrl (length (objectUrls st)), st\<lparr>objectUrls := objectUrls st @ [b]\<rparr>)"

text \<open>
  An \<^verbatim>\<open>async\<close> function runs until it returns or reaches its \<^verbatim>\<open>await\<close>. The first part
  of \<open>handleHighlightSection\<close>: it has \<open>Returned\<close>, or it has posted request \<open>n\<close> and
  waits for the answer.
\<close>

datatype progress = Returned | Awaiting nat

definition handleHighlightSection :: "string option \<Rightarrow> app \<Rightarrow> progress \<times> app" where
  "handleHighlightSection sectionText st =
     (case sectionText of
        None \<Rightarrow> (Returned, st)
      | Some t \<Rightarrow>
          if t = [] \<or> length t < 20 then (Returned, st)
          else let key = hashKey t in
            (case highlightCache st key of
               Some cached \<Rightarrow>
                 (Returned, st\<lparr>pdfBlobUrl := blobUrl cached, isHighlighting := False\<rparr>)
             | None \<Rightarrow>
                 (Awaiting (length (posted st)),
                  st\<lparr>isHighlighting := True,
                     posted := posted st @ [t],
                     awaiting := awaiting st @ [length (posted st)]\<rparr>)))"

text \<open>The answer to a request: the blob of the highlighted PDF, or a failure of the call.\<close>

datatype response = Ok blob | Failed string

text \<open>
  The rest of the \<^verbatim>\<open>try\<close> block once the answer is there, for the call that posted
  \<open>sectionText\<close>: the \<^verbatim>\<open>await\<close> throws on a failure.
\<close>

definition try_block :: "string \<Rightarrow> response \<Rightarrow> app \<Rightarrow> (js_error + unit) \<times> app" where
  "try_block sectionText r st =
     (case r of
        Failed msg \<Rightarrow> (Inl (NetworkError msg), st)
      | Ok b \<Rightarrow>
          (case createObjectURL b st of
             (u, st1) \<Rightarrow>
               (Inr (),
                st1\<lparr>pdfBlobUrl := u,
                    highlightCache := (highlightCache st1)
                      (hashKey sectionText \<mapsto> \<lparr>blobUrl = u, cached_text = sectionText\<rparr>)\<rparr>)))"

text \<open>
  The continuation of \<open>handleHighlightSection\<close> after the \<^verbatim>\<open>await\<close>: the \<^verbatim>\<open>try\<close>
  block, the \<^verbatim>\<open>catch\<close> that writes the error to the console, and the \<^verbatim>\<open>finally\<close> that
  sets the timer. The first component is how the promise of the call settles: \<open>Inr ()\<close>
  fulfilled, \<open>Inl e\<close> rejected with \<open>e\<close>.
\<close>

definition resume :: "string \<Rightarrow> response \<Rightarrow> app \<Rightarrow> (js_error + unit) \<times> app" where
  "resume sectionText r st =
     (case try_block sectionText r st of
        (Inl e, st1) \<Rightarrow>
          (Inr (), st1\<lparr>console := console st1 @ [''Error highlighting PDF:''], timers := Suc (timers st1)\<rparr>)
      | (Inr u, st1) \<Rightarrow>
          (Inr u, st1\<lparr>timers := Suc (timers st1)\<rparr>))"

text \<open>
  What happens to the application, one event at a time (there is one thread): a call
  of the handler, the answer to a posted request that still waits, or a timer firing.
  An answer to a request that does not wait and a timer that was not set change nothing.
\<close>

datatype event = Call "string option" | Answer nat response | Timer

definition step :: "event \<Rightarrow> app \<Rightarrow> app" where
  "step e st =
     (case e of
        Call sectionText \<Rightarrow> snd (handleHighlightSection sectionText st)
      | Answer n r \<Rightarrow>
          if n \<in> set (awaiting st) \<and> n < length (posted st)
          then snd (resume (posted st ! n) r (st\<lparr>awaiting := removeAll n (awaiting st)\<rparr>))
          else st
      | Timer \<Rightarrow>
          if timers st = 0 then st
          else st\<lparr>isHighlighting := False, timers := timers st - 1\<rparr>)"

definition run :: "event list \<Rightarrow> app \<Rightarrow> app" where
  "run es st = fold step es st"

text \<open>The application when the page has loaded.\<close>

definition initial_app :: app where
  "initial_app =
     \<lparr>pdfBlobUrl = Path ''/cmc.pdf'', isHighlighting = False, highlightCache = Map.empty,
      objectUrls = [], posted = [], awaiting = [], timers = 0, console = []\<rparr>"

text \<open>The blob the viewer shows, when its URL is an object URL.\<close>

definition displayed :: "app \<Rightarrow> blob option" where
  "displayed st =
     (case pdfBlobUrl st of
        Path _ \<Rightarrow> None
      | ObjectUrl n \<Rightarrow> if n < length (objectUrls st) then Some (objectUrls st ! n) else None)"

section \<open>Properties of the inline diff\<close>

lemma final_loop_append:
  "final_loop segs idx sts acc = acc @ final_loop segs idx sts []"
proof (induction segs arbitrary: idx acc)
  case Nil
  show ?case by simp
next
  case (Cons seg segs)
  have "final_loop (seg # segs) idx sts acc
        = (acc @ emit seg (state_at sts idx)) @ final_loop segs (Suc idx) sts []"
    using Cons.IH [of "Suc idx" "acc @ emit seg (state_at sts idx)"] by simp
  also have "\<dots> = acc @ final_loop (seg # segs) idx sts []"
    using Cons.IH [of "Suc idx" "emit seg (state_at sts idx)"] by simp
  finally show ?case .
qed

lemma final_loop_enumerate:
  "final_loop segs idx sts [] =
     concat (map (\<lambda>(i, seg). emit seg (state_at sts i)) (enumerate idx segs))"
proof (induction segs arbitrary: idx)
  case Nil
  show ?case by simp
next
  case (Cons seg segs)
  have "final_loop (seg # segs) idx sts []
        = emit seg (state_at sts idx) @ final_loop segs (Suc idx) sts []"
    using final_loop_append [of segs "Suc idx" sts "emit seg (state_at sts idx)"] by simp
  then show ?case
    using Cons.IH [of "Suc idx"] by simp
qed

lemma emit_rule:
  "(op seg = ''equal'' \<longrightarrow> emit seg st = or_empty (orig seg)) \<and>
   (op seg = ''delete'' \<longrightarrow>
      (st = Some Accepted \<longrightarrow> emit seg st = []) \<and>
      (st = Some Pending \<or> st = Some Rejected \<longrightarrow> emit seg st = or_empty (orig seg))) \<and>
   (op seg = ''replace'' \<longrightarrow>
      emit seg st = (if st = Some Accepted then or_empty (suggested seg) else or_empty (orig seg))) \<and>
   (op seg = ''insert'' \<longrightarrow>
      emit seg st = (if st = Some Accepted then or_empty (suggested seg) else [])) \<and>
   (op seg \<notin> {''equal'', ''delete'', ''replace'', ''insert''} \<longrightarrow>
      emit seg st = or_empty (orig seg))"
  by (simp add: emit_def)

text \<open>
  Claim C2. For every list of segments and every array of decisions, the final text is
  the concatenation, in the order of the segments, of one piece per segment: the
  original span of an equal segment, whatever its decision; nothing for an accepted
  delete and the original span for a pending or rejected one; the suggested span for
  an accepted replace and the original span otherwise; the suggested span for an
  accepted insert and nothing otherwise; the original span for any other operation.
  A span that is missing reads as the empty string. The effect hands this text to
  \<open>onTextChange\<close> whenever there is at least one segment.
\<close>

theorem computeFinalText_rule:
  "(\<exists>pieces. length pieces = length segs \<and> computeFinalText segs sts = concat pieces \<and>
     (\<forall>i<length segs.
        (op (segs ! i) = ''equal'' \<longrightarrow> pieces ! i = or_empty (orig (segs ! i))) \<and>
        (op (segs ! i) = ''delete'' \<longrightarrow>
           (state_at sts i = Some Accepted \<longrightarrow> pieces ! i = []) \<and>
           (state_at sts i = Some Pending \<or> state_at sts i = Some Rejected \<longrightarrow>
              pieces ! i = or_empty (orig (segs ! i)))) \<and>
        (op (segs ! i) = ''replace'' \<longrightarrow>
           pieces ! i = (if state_at sts i = Some Accepted then or_empty (suggested (segs ! i))
                         else or_empty (orig (segs ! i)))) \<and>
        (op (segs ! i) = ''insert'' \<longrightarrow>
           pieces ! i = (if state_at sts i = Some Accepted then or_empty (suggested (segs ! i))
                         else [])) \<and>
        (op (segs ! i) \<notin> {''equal'', ''delete'', ''replace'', ''insert''} \<longrightarrow>
           pieces ! i = or_empty (orig (segs ! i)))))
   \<and> (segs \<noteq> [] \<longrightarrow> final_text_effect True segs sts = Some (computeFinalText segs sts))"
proof -
  define pieces where
    "pieces = map (\<lambda>(i, seg). emit seg (state_at sts i)) (enumerate 0 segs)"
  have len: "length pieces = length segs"
    by (simp add: pieces_def)
  have fin: "computeFinalText segs sts = concat pieces"
    by (simp add: computeFinalText_def pieces_def final_loop_enumerate)
  have nth: "pieces ! i = emit (segs ! i) (state_at sts i)" if "i < length segs" for i
    using that by (simp add: pieces_def nth_enumerate_eq)
  have "\<forall>i<length segs.
        (op (segs ! i) = ''equal'' \<longrightarrow> pieces ! i = or_empty (orig (segs ! i))) \<and>
        (op (segs ! i) = ''delete'' \<longrightarrow>
           (state_at sts i = Some Accepted \<longrightarrow> pieces ! i = []) \<and>
           (state_at sts i = Some Pending \<or> state_at sts i = Some Rejected \<longrightarrow>
              pieces ! i = or_empty (orig (segs ! i)))) \<and>
        (op (segs ! i) = ''replace'' \<longrightarrow>
           pieces ! i = (if state_at sts i = Some Accepted then or_empty (suggested (segs ! i))
                         else or_empty (orig (segs ! i)))) \<and>
        (op (segs ! i) = ''insert'' \<longrightarrow>
           pieces ! i = (if state_at sts i = Some Accepted then or_empty (suggested (segs ! i))
                         else [])) \<and>
        (op (segs ! i) \<notin> {''equal'', ''delete'', ''replace'', ''insert''} \<longrightarrow>
           pieces ! i = or_empty (orig (segs ! i)))"
  proof (intro allI impI)
    fix i assume "i < length segs"
    then have p: "pieces ! i = emit (segs ! i) (state_at sts i)" by (rule nth)
    show "(op (segs ! i) = ''equal'' \<longrightarrow> pieces ! i = or_empty (orig (segs ! i))) \<and>
        (op (segs ! i) = ''delete'' \<longrightarrow>
           (state_at sts i = Some Accepted \<longrightarrow> pieces ! i = []) \<and>
           (state_at sts i = Some Pending \<or> state_at sts i = Some Rejected \<longrightarrow>
              pieces ! i = or_empty (orig (segs ! i)))) \<and>
        (op (segs ! i) = ''replace'' \<longrightarrow>
           pieces ! i = (if state_at sts i = Some Accepted then or_empty (suggested (segs ! i))
                         else or_empty (orig (segs ! i)))) \<and>
        (op (segs ! i) = ''insert'' \<longrightarrow>
           pieces ! i = (if state_at sts i = Some Accepted then or_empty (suggested (segs ! i))
                         else [])) \<and>
        (op (segs ! i) \<notin> {''equal'', ''delete'', ''replace'', ''insert''} \<longrightarrow>
           pieces ! i = or_empty (orig (segs ! i)))"
      unfolding p by (rule emit_rule)
  qed
  with len fin show ?thesis
    by (auto simp: final_text_effect_def)
qed

theorem computeFinalText_rule_witness:
  "computeFinalText
     [\<lparr>op = ''equal'', orig = Some ''A '', suggested = None\<rparr>,
      \<lparr>op = ''replace'', orig = Some ''B'', suggested = Some ''C''\<rparr>,
      \<lparr>op = ''insert'', orig = Some '''', suggested = Some '' D''\<rparr>]
     [Some Accepted, Some Accepted, Some Rejected] = ''A C''
   \<and> final_text_effect True
     [\<lparr>op = ''equal'', orig = Some ''A '', suggested = None\<rparr>,
      \<lparr>op = ''replace'', orig = Some ''B'', suggested = Some ''C''\<rparr>,
      \<lparr>op = ''insert'', orig = Some '''', suggested = Some '' D''\<rparr>]
     [Some Accepted, Some Accepted, Some Rejected] = Some ''A C''"
proof -
  let ?segs = "[\<lparr>op = ''equal'', orig = Some ''A '', suggested = None\<rparr>,
      \<lparr>op = ''replace'', orig = Some ''B'', suggested = Some ''C''\<rparr>,
      \<lparr>op = ''insert'', orig = Some '''', suggested = Some '' D''\<rparr>]"
  let ?sts = "[Some Accepted, Some Accepted, Some Rejected]"
  from computeFinalText_rule [of ?segs ?sts]
  obtain pieces where len: "length pieces = length ?segs"
    and fin: "computeFinalText ?segs ?sts = concat pieces"
    and rule: "\<And>i. i < length ?segs \<Longrightarrow>
        (op (?segs ! i) = ''equal'' \<longrightarrow> pieces ! i = or_empty (orig (?segs ! i))) \<and>
        (op (?segs ! i) = ''replace'' \<longrightarrow>
           pieces ! i = (if state_at ?sts i = Some Accepted then or_empty (suggested (?segs ! i))
                         else or_empty (orig (?segs ! i)))) \<and>
        (op (?segs ! i) = ''insert'' \<longrightarrow>
           pieces ! i = (if state_at ?sts i = Some Accepted then or_empty (suggested (?segs ! i))
                         else []))"
    and eff: "final_text_effect True ?segs ?sts = Some (computeFinalText ?segs ?sts)"
    by blast
  have p0: "pieces ! 0 = ''A ''"
    using rule [of 0] by (simp add: or_empty_def)
  have p1: "pieces ! 1 = ''C''"
    using rule [of 1] by (simp add: or_empty_def state_at_def)
  have p2: "pieces ! 2 = []"
    using rule [of 2] by (simp add: or_empty_def state_at_def)
  from len obtain a b c where "pieces = [a, b, c]"
    by (auto simp: length_Suc_conv)
  with p0 p1 p2 have "pieces = [''A '', ''C'', []]"
    by simp
  with fin have "computeFinalText ?segs ?sts = ''A C''" by simp
  with eff show ?thesis by simp
qed

text \<open>
  Claim C10, as stated, fails: a pending insert contributes nothing to the final text,
  so an insert segment that carries an original span loses it. Under the initial
  decisions the text of one such segment is empty, and the concatenation of the
  original spans is not.
\<close>

theorem initial_text_counterexample:
  "computeFinalText [\<lparr>op = ''insert'', orig = Some ''X'', suggested = Some ''Y''\<rparr>]
     (init_states [\<lparr>op = ''insert'', orig = Some ''X'', suggested = Some ''Y''\<rparr>]) = []
   \<and> concat (map (\<lambda>seg. or_empty (orig seg))
        [\<lparr>op = ''insert'', orig = Some ''X'', suggested = Some ''Y''\<rparr>]) = ''X''"
  by (simp add: computeFinalText_def init_states_def emit_def state_at_def or_empty_def)

lemma emit_init:
  "emit seg (Some (if op seg = ''equal'' then Accepted else Pending))
     = (if op seg = ''insert'' then [] else or_empty (orig seg))"
  by (simp add: emit_def)

lemma computeFinalText_init:
  "computeFinalText segs (init_states segs)
     = concat (map (\<lambda>seg. if op seg = ''insert'' then [] else or_empty (orig seg)) segs)"
proof -
  have "map (\<lambda>(i, seg). emit seg (state_at (init_states segs) i)) (enumerate 0 segs)
        = map (\<lambda>(i, seg). if op seg = ''insert'' then [] else or_empty (orig seg)) (enumerate 0 segs)"
  proof (rule map_cong [OF refl])
    fix x assume "x \<in> set (enumerate 0 segs)"
    then have "fst x < length segs \<and> snd x = segs ! fst x"
      by (simp add: in_set_enumerate_eq)
    then obtain i where i: "i < length segs" and x: "x = (i, segs ! i)"
      by (cases x) simp
    show "(case x of (i, seg) \<Rightarrow> emit seg (state_at (init_states segs) i))
          = (case x of (i, seg) \<Rightarrow> if op seg = ''insert'' then [] else or_empty (orig seg))"
      using i by (simp add: x state_at_def init_states_def emit_init)
  qed
  also have "\<dots> = map (\<lambda>seg. if op seg = ''insert'' then [] else or_empty (orig seg)) segs"
    by (simp add: list_eq_iff_nth_eq nth_enumerate_eq)
  finally show ?thesis
    by (simp add: computeFinalText_def final_loop_enumerate)
qed

text \<open>
  Claim C10, amended. For every list of segments whose insert segments have an empty
  original span, the final text under the initial decisions (equal segments accepted,
  all others pending) is the concatenation of the original spans in order.
\<close>

theorem initial_text_is_original:
  assumes "\<forall>seg \<in> set segs. op seg = ''insert'' \<longrightarrow> or_empty (orig seg) = []"
  shows "computeFinalText segs (init_states segs) = concat (map (\<lambda>seg. or_empty (orig seg)) segs)"
proof -
  have "map (\<lambda>seg. if op seg = ''insert'' then [] else or_empty (orig seg)) segs
        = map (\<lambda>seg. or_empty (orig seg)) segs"
  proof (rule map_cong [OF refl])
    fix seg assume "seg \<in> set segs"
    with assms show "(if op seg = ''insert'' then [] else or_empty (orig seg)) = or_empty (orig seg)"
      by simp
  qed
  then show ?thesis by (simp only: computeFinalText_init)
qed

theorem initial_text_is_original_witness:
  "computeFinalText
     [\<lparr>op = ''equal'', orig = Some ''A '', suggested = None\<rparr>,
      \<lparr>op = ''replace'', orig = Some ''B'', suggested = Some ''C''\<rparr>,
      \<lparr>op = ''insert'', orig = Some '''', suggested = Some '' D''\<rparr>,
      \<lparr>op = ''delete'', orig = Some ''!'', suggested = None\<rparr>]
     (init_states
     [\<lparr>op = ''equal'', orig = Some ''A '', suggested = None\<rparr>,
      \<lparr>op = ''replace'', orig = Some ''B'', suggested = Some ''C''\<rparr>,
      \<lparr>op = ''insert'', orig = Some '''', suggested = Some '' D''\<rparr>,
      \<lparr>op = ''delete'', orig = Some ''!'', suggested = None\<rparr>]) = ''A B!''"
  using initial_text_is_original [of
     "[\<lparr>op = ''equal'', orig = Some ''A '', suggested = None\<rparr>,
      \<lparr>op = ''replace'', orig = Some ''B'', suggested = Some ''C''\<rparr>,
      \<lparr>op = ''insert'', orig = Some '''', suggested = Some '' D''\<rparr>,
      \<lparr>op = ''delete'', orig = Some ''!'', suggested = None\<rparr>]"]
  by (simp add: or_empty_def)

text \<open>
  Claim C7, as stated, fails: \<open>updateState\<close> checks neither the operation of the
  segment nor the index. Called on an equal segment it records the rejection, and
  called with an index past the end it extends the array.
\<close>

theorem updateState_guard_counterexample:
  "states (updateState 0 Rejected \<lparr>op = ''equal'', orig = Some ''A'', suggested = None\<rparr> ''reject''
             \<lparr>states = init_states [\<lparr>op = ''equal'', orig = Some ''A'', suggested = None\<rparr>],
              logged = []\<rparr>)
     = [Some Rejected]
   \<and> init_states [\<lparr>op = ''equal'', orig = Some ''A'', suggested = None\<rparr>] = [Some Accepted]
   \<and> states (updateState 3 Accepted \<lparr>op = ''delete'', orig = Some ''B'', suggested = None\<rparr> ''accept''
             \<lparr>states = [Some Pending], logged = []\<rparr>)
     = [Some Pending, None, None, Some Accepted]"
  by (simp add: updateState_def set_index_def init_states_def numeral_3_eq_3)

lemma states_updateState:
  "states (updateState idx newState seg actionType c) = set_index (states c) idx newState"
  by (simp add: updateState_def Let_def)

lemma state_at_set_index_same:
  "state_at (set_index sts idx newState) idx = Some newState"
  by (simp add: state_at_def set_index_def nth_append)

lemma controls_equal: "op seg = ''equal'' \<Longrightarrow> controls seg st = []"
  by (simp add: controls_def)

lemma equal_kept_init: "equal_kept segs \<lparr>states = init_states segs, logged = lg\<rparr>"
  by (simp add: equal_kept_def init_states_def state_at_def)

lemma equal_kept_click:
  assumes "equal_kept segs c" and "click segs b c = Some c'"
  shows "equal_kept segs c'"
proof -
  obtain idx newState actionType where b: "b = (idx, newState, actionType)"
    by (cases b)
  from assms(2) have idx: "idx < length segs"
    and ctl: "(newState, actionType) \<in> set (controls (segs ! idx) (state_at (states c) idx))"
    and c': "c' = updateState idx newState (segs ! idx) actionType c"
    by (auto simp: click_def b split: if_splits)
  from ctl have neq: "op (segs ! idx) \<noteq> ''equal''"
    using controls_equal [of "segs ! idx"] by auto
  from assms(1) have len: "length (states c) = length segs"
    and eq: "\<And>i. i < length segs \<Longrightarrow> op (segs ! i) = ''equal'' \<Longrightarrow> states c ! i = Some Accepted"
    by (auto simp: equal_kept_def state_at_def)
  have st: "states c' = (states c)[idx := Some newState]"
    using idx len by (simp add: c' states_updateState set_index_def)
  show ?thesis
    unfolding equal_kept_def
  proof (intro conjI allI impI)
    show "length (states c') = length segs"
      by (simp add: st len)
    fix i assume i: "i < length segs" and e: "op (segs ! i) = ''equal''"
    with neq have "i \<noteq> idx" by auto
    then show "state_at (states c') i = Some Accepted"
      using i e eq [of i] len by (simp add: st state_at_def)
  qed
qed

lemma equal_kept_clicks:
  "equal_kept segs c \<Longrightarrow> clicks segs bs c = Some c' \<Longrightarrow> equal_kept segs c'"
proof (induction bs arbitrary: c)
  case Nil
  then show ?case by simp
next
  case (Cons b bs)
  from Cons.prems(2) obtain c1 where c1: "click segs b c = Some c1"
    and rest: "clicks segs bs c1 = Some c'"
    by (auto split: option.splits)
  from Cons.prems(1) c1 have "equal_kept segs c1"
    by (rule equal_kept_click)
  then show ?case using rest by (rule Cons.IH)
qed

text \<open>
  Claim C7, amended. \<open>updateState\<close> itself has no guard: it records the new decision
  at whatever index it is given. What keeps equal segments accepted is the rendering:
  the component offers accept and reject buttons only for a segment within range whose
  operation is delete, replace or insert and that is neither accepted nor rejected. So
  after any sequence of clicks on rendered buttons, starting from the initial
  decisions, the array has one decision per segment and every equal segment is still
  accepted.
\<close>

theorem updateState_only_through_controls:
  "state_at (states (updateState idx newState seg actionType c)) idx = Some newState
   \<and> (clicks segs bs \<lparr>states = init_states segs, logged = lg\<rparr> = Some c' \<longrightarrow>
        length (states c') = length segs
        \<and> (\<forall>i<length segs. op (segs ! i) = ''equal'' \<longrightarrow> state_at (states c') i = Some Accepted))"
proof (intro conjI impI)
  show "state_at (states (updateState idx newState seg actionType c)) idx = Some newState"
    by (simp add: states_updateState state_at_set_index_same)
next
  assume "clicks segs bs \<lparr>states = init_states segs, logged = lg\<rparr> = Some c'"
  with equal_kept_init [of segs lg] have k: "equal_kept segs c'"
    by (rule equal_kept_clicks)
  from k show "length (states c') = length segs"
    by (simp add: equal_kept_def)
  from k show "\<forall>i<length segs. op (segs ! i) = ''equal'' \<longrightarrow> state_at (states c') i = Some Accepted"
    by (simp add: equal_kept_def)
qed

theorem updateState_only_through_controls_witness:
  "clicks [\<lparr>op = ''equal'', orig = Some ''A '', suggested = None\<rparr>,
           \<lparr>op = ''replace'', orig = Some ''B'', suggested = Some ''C''\<rparr>,
           \<lparr>op = ''insert'', orig = Some '''', suggested = Some '' D''\<rparr>]
     [(1, Accepted, ''accept''), (2, Rejected, ''reject'')]
     \<lparr>states = init_states
        [\<lparr>op = ''equal'', orig = Some ''A '', suggested = None\<rparr>,
         \<lparr>op = ''replace'', orig = Some ''B'', suggested = Some ''C''\<rparr>,
         \<lparr>op = ''insert'', orig = Some '''', suggested = Some '' D''\<rparr>], logged = []\<rparr>
     = Some \<lparr>states = [Some Accepted, Some Accepted, Some Rejected],
             logged = [(''diff_accept'', ''replace'', 1), (''diff_reject'', ''insert'', 2)]\<rparr>
   \<and> state_at [Some Accepted, Some Accepted, Some Rejected] 0 = Some Accepted
   \<and> click [\<lparr>op = ''equal'', orig = Some ''A '', suggested = None\<rparr>] (0, Rejected, ''reject'')
        \<lparr>states = [Some Accepted], logged = []\<rparr> = None"
proof -
  let ?segs = "[\<lparr>op = ''equal'', orig = Some ''A '', suggested = None\<rparr>,
           \<lparr>op = ''replace'', orig = Some ''B'', suggested = Some ''C''\<rparr>,
           \<lparr>op = ''insert'', orig = Some '''', suggested = Some '' D''\<rparr>]"
  let ?c' = "\<lparr>states = [Some Accepted, Some Accepted, Some Rejected],
             logged = [(''diff_accept'', ''replace'', 1), (''diff_reject'', ''insert'', 2)]\<rparr>"
  have run: "clicks ?segs [(1, Accepted, ''accept''), (2, Rejected, ''reject'')]
               \<lparr>states = init_states ?segs, logged = []\<rparr> = Some ?c'"
    by (simp add: click_def controls_def init_states_def state_at_def updateState_def set_index_def)
  from updateState_only_through_controls
         [of 0 Accepted "hd ?segs" "''accept''" "\<lparr>states = [], logged = []\<rparr>" ?segs
             "[(1, Accepted, ''accept''), (2, Rejected, ''reject'')]" "[]" ?c'] run
  have "state_at (states ?c') 0 = Some Accepted"
    by simp
  moreover have "click [\<lparr>op = ''equal'', orig = Some ''A '', suggested = None\<rparr>] (0, Rejected, ''reject'')
        \<lparr>states = [Some Accepted], logged = []\<rparr> = None"
    by (simp add: click_def controls_def)
  ultimately show ?thesis using run by simp
qed

section \<open>Properties of the normalizer\<close>

text \<open>
  Claim C8, as stated, fails for \<open>undefined\<close>: \<open>normalize\<close> calls a method on its
  argument at once, which raises a \<open>TypeError\<close> instead of giving the empty string.
\<close>

theorem normalize_undefined_counterexample: "normalize None = Inl TypeError"
  by (simp add: normalize_def)

lemma normalize_chain_empty: "normalize_chain [] = []"
  by (simp add: normalize_chain_def trim_def toLowerCase_def)

lemma is_space_nat: "is_space c \<longleftrightarrow> (of_char c :: nat) \<in> {9, 10, 11, 12, 13, 32, 160}"
proof -
  have "\<And>d. c = d \<longleftrightarrow> (of_char c :: nat) = of_char d" by simp
  then show ?thesis
    unfolding is_space_def by (simp only: ) simp
qed

lemma of_char_to_lower:
  "(of_char (to_lower c) :: nat) =
     (let n = of_char c
      in if (65 \<le> n \<and> n \<le> 90) \<or> (192 \<le> n \<and> n \<le> 222 \<and> n \<noteq> 215) then n + 32 else n)"
  by (auto simp: to_lower_def Let_def)

lemma is_space_to_lower: "is_space (to_lower c) = is_space c"
  unfolding is_space_nat of_char_to_lower by (auto simp: Let_def)

lemma to_lower_idem: "to_lower (to_lower c) = to_lower c"
proof -
  have "(of_char (to_lower (to_lower c)) :: nat) = of_char (to_lower c)"
    unfolding of_char_to_lower by (auto simp: Let_def)
  then show ?thesis by simp
qed

lemma to_lower_space: "to_lower c = CHR '' '' \<longleftrightarrow> c = CHR '' ''"
proof -
  have "to_lower c = CHR '' '' \<longleftrightarrow> (of_char (to_lower c) :: nat) = of_char (CHR '' '')"
    by (simp only: of_char_eq_iff)
  also have "\<dots> \<longleftrightarrow> (of_char c :: nat) = of_char (CHR '' '')"
    unfolding of_char_to_lower by (auto simp: Let_def)
  also have "\<dots> \<longleftrightarrow> c = CHR '' ''"
    by (simp only: of_char_eq_iff)
  finally show ?thesis .
qed

lemma single_spaced_Cons_nonspace:
  "\<not> is_space c \<Longrightarrow> single_spaced (c # xs) = single_spaced xs"
  by (cases xs) simp_all

lemma single_spaced_Cons_space:
  "single_spaced (CHR '' '' # xs) \<longleftrightarrow> (xs = [] \<or> \<not> is_space (hd xs)) \<and> single_spaced xs"
  by (cases xs) (simp_all add: is_space_def)

lemma collapse_spaces_hd:
  "xs = [] \<or> \<not> is_space (hd xs) \<Longrightarrow>
   collapse_spaces xs = [] \<or> \<not> is_space (hd (collapse_spaces xs))"
  by (cases xs) auto

lemma single_spaced_collapse: "single_spaced (collapse_spaces s)"
proof (induction s rule: collapse_spaces.induct)
  case 1
  show ?case by simp
next
  case (2 c cs)
  show ?case
  proof (cases "is_space c")
    case True
    have "dropWhile is_space cs = [] \<or> \<not> is_space (hd (dropWhile is_space cs))"
      using hd_dropWhile [of is_space cs] by blast
    then have "collapse_spaces (dropWhile is_space cs) = []
               \<or> \<not> is_space (hd (collapse_spaces (dropWhile is_space cs)))"
      by (rule collapse_spaces_hd)
    with True 2(1) show ?thesis
      by (simp add: single_spaced_Cons_space)
  next
    case False
    with 2(2) show ?thesis
      by (simp add: single_spaced_Cons_nonspace)
  qed
qed

lemma single_spaced_map_to_lower: "single_spaced (map to_lower s) = single_spaced s"
  by (induction s rule: single_spaced.induct)
     (simp_all add: is_space_to_lower to_lower_space)

lemma single_spaced_append:
  "single_spaced (xs @ ys) \<Longrightarrow> single_spaced xs \<and> single_spaced ys"
proof (induction xs rule: single_spaced.induct)
  case 1
  then show ?case by simp
next
  case (2 c)
  then show ?case by (cases ys) auto
next
  case (3 c d cs)
  then show ?case by auto
qed

lemma trim_decomp: "\<exists>pre post. s = pre @ trim s @ post"
proof -
  let ?t = "dropWhile is_space s"
  have "trim s @ rev (takeWhile is_space (rev ?t))
          = rev (takeWhile is_space (rev ?t) @ dropWhile is_space (rev ?t))"
    by (simp only: trim_def rev_append)
  also have "\<dots> = rev (rev ?t)"
    by (simp only: takeWhile_dropWhile_id)
  finally have "?t = trim s @ rev (takeWhile is_space (rev ?t))"
    by simp
  moreover have "s = takeWhile is_space s @ ?t"
    by simp
  ultimately have "s = takeWhile is_space s @ trim s @ rev (takeWhile is_space (rev ?t))"
    by simp
  then show ?thesis by blast
qed

lemma trim_ends:
  "trim s = [] \<or> (\<not> is_space (hd (trim s)) \<and> \<not> is_space (last (trim s)))"
proof (cases "trim s = []")
  case True
  then show ?thesis by simp
next
  case False
  let ?t = "dropWhile is_space s"
  let ?u = "dropWhile is_space (rev ?t)"
  have tr: "trim s = rev ?u" by (simp only: trim_def)
  have u: "?u \<noteq> []"
  proof
    assume "?u = []"
    then have "trim s = []" by (simp only: tr rev.simps)
    with False show False by simp
  qed
  have t: "?t \<noteq> []"
  proof
    assume e: "?t = []"
    have "?u = []" unfolding e by simp
    with u show False by (simp only: )
  qed
  have "last (trim s) = hd ?u"
    using u by (simp only: tr last_rev)
  moreover have "\<not> is_space (hd ?u)"
    using u hd_dropWhile [of is_space "rev ?t"] by blast
  moreover have "hd (trim s) = last ?u"
    using u by (simp only: tr hd_rev)
  moreover have "last ?u = last (rev ?t)"
    using u by (metis append_Nil2 last_appendR takeWhile_dropWhile_id)
  moreover have "last (rev ?t) = hd ?t"
    using t by (simp add: last_rev)
  moreover have "\<not> is_space (hd ?t)"
    using t hd_dropWhile [of is_space s] by blast
  ultimately show ?thesis by simp
qed

lemma normalize_chain_shape:
  "(normalize_chain s = [] \<or>
      (\<not> is_space (hd (normalize_chain s)) \<and> \<not> is_space (last (normalize_chain s))))
   \<and> single_spaced (normalize_chain s)
   \<and> (\<forall>c \<in> set (normalize_chain s). to_lower c = c)"
proof -
  let ?l = "toLowerCase (collapse_spaces (strip_hyphen_breaks s))"
  obtain pre post where d: "?l = pre @ trim ?l @ post"
    using trim_decomp [of ?l] by blast
  have "single_spaced ?l"
    by (simp add: toLowerCase_def single_spaced_map_to_lower single_spaced_collapse)
  with d have "single_spaced (pre @ trim ?l @ post)" by simp
  then have a: "single_spaced (trim ?l)"
    using single_spaced_append by blast
  have "\<forall>c \<in> set ?l. to_lower c = c"
    by (auto simp: toLowerCase_def to_lower_idem)
  moreover have "set (trim ?l) \<subseteq> set ?l"
    by (subst (2) d) auto
  ultimately have b: "\<forall>c \<in> set (trim ?l). to_lower c = c" by blast
  from a b trim_ends [of ?l] show ?thesis
    by (simp add: normalize_chain_def)
qed

text \<open>
  Claim C8, amended. \<open>normalize\<close> is total on strings: for every string it raises
  nothing and returns a string, and for the empty string it returns the empty string.
  What it returns is trimmed (no white space at either end), has white space only as
  single spaces, and has no capital letter. For \<open>undefined\<close> it raises a
  \<open>TypeError\<close>; its callers pass \<^verbatim>\<open>p.text || ""\<close> or return before the call when
  the text is missing.
\<close>

theorem normalize_total_on_strings:
  "(\<exists>r. normalize (Some s) = Inr r
        \<and> (r = [] \<or> (\<not> is_space (hd r) \<and> \<not> is_space (last r)))
        \<and> single_spaced r
        \<and> (\<forall>c \<in> set r. to_lower c = c))
   \<and> normalize (Some []) = Inr []
   \<and> normalize None = Inl TypeError"
  using normalize_chain_shape [of s]
  by (simp add: normalize_def normalize_chain_empty)

theorem normalize_total_on_strings_witness:
  "normalize (Some ''  Hello  Wor- \<newline>ld,\<newline>THE End  '') = Inr ''hello world, the end''
   \<and> single_spaced ''hello world, the end''"
proof -
  let ?s = "''  Hello  Wor- \<newline>ld,\<newline>THE End  ''"
  have e: "normalize (Some ?s) = Inr ''hello world, the end''"
    by (simp add: normalize_def normalize_chain_def trim_def toLowerCase_def to_lower_def
          is_space_def break_len_def char_of_def bit_Suc_0_iff)
  from normalize_total_on_strings [of ?s]
  obtain r where "normalize (Some ?s) = Inr r" and "single_spaced r"
    by blast
  with e show ?thesis by simp
qed

section \<open>Properties of the page locator\<close>

lemma best_loop_spec:
  "\<exists>bp' bs'. best_loop tokens ps (bp, bs) = (bp', bs') \<and>
     (((\<forall>j<length ps. page_score tokens (ps ! j) \<le> bs) \<and> bp' = bp \<and> bs' = bs)
      \<or> (\<exists>i<length ps. bs < page_score tokens (ps ! i)
            \<and> bp' = Some (page_number (ps ! i)) \<and> bs' = page_score tokens (ps ! i)
            \<and> (\<forall>j<length ps. page_score tokens (ps ! j) \<le> page_score tokens (ps ! i))
            \<and> (\<forall>j<i. page_score tokens (ps ! j) < page_score tokens (ps ! i))))"
proof (induction ps arbitrary: bp bs)
  case Nil
  show ?case by simp
next
  case (Cons p ps)
  let ?sc = "page_score tokens"
  show ?case
  proof (cases "?sc p > bs")
    case True
    then have unf: "best_loop tokens (p # ps) (bp, bs) = best_loop tokens ps (Some (page_number p), ?sc p)"
      by simp
    from Cons.IH [of "Some (page_number p)" "?sc p"]
    obtain bp' bs' where r: "best_loop tokens ps (Some (page_number p), ?sc p) = (bp', bs')"
      and d: "((\<forall>j<length ps. ?sc (ps ! j) \<le> ?sc p) \<and> bp' = Some (page_number p) \<and> bs' = ?sc p)
      \<or> (\<exists>i<length ps. ?sc p < ?sc (ps ! i)
            \<and> bp' = Some (page_number (ps ! i)) \<and> bs' = ?sc (ps ! i)
            \<and> (\<forall>j<length ps. ?sc (ps ! j) \<le> ?sc (ps ! i))
            \<and> (\<forall>j<i. ?sc (ps ! j) < ?sc (ps ! i)))"
      by blast
    from d show ?thesis
    proof
      assume a: "(\<forall>j<length ps. ?sc (ps ! j) \<le> ?sc p) \<and> bp' = Some (page_number p) \<and> bs' = ?sc p"
      have "\<forall>j<length (p # ps). ?sc ((p # ps) ! j) \<le> ?sc ((p # ps) ! 0)"
        using a by (simp add: nth_Cons split: nat.split)
      then have "\<exists>i<length (p # ps). bs < ?sc ((p # ps) ! i)
            \<and> bp' = Some (page_number ((p # ps) ! i)) \<and> bs' = ?sc ((p # ps) ! i)
            \<and> (\<forall>j<length (p # ps). ?sc ((p # ps) ! j) \<le> ?sc ((p # ps) ! i))
            \<and> (\<forall>j<i. ?sc ((p # ps) ! j) < ?sc ((p # ps) ! i))"
        using a True by (intro exI [of _ 0]) simp
      with unf r show ?thesis by simp
    next
      assume "\<exists>i<length ps. ?sc p < ?sc (ps ! i)
            \<and> bp' = Some (page_number (ps ! i)) \<and> bs' = ?sc (ps ! i)
            \<and> (\<forall>j<length ps. ?sc (ps ! j) \<le> ?sc (ps ! i))
            \<and> (\<forall>j<i. ?sc (ps ! j) < ?sc (ps ! i))"
      then obtain i where i: "i < length ps" and gt: "?sc p < ?sc (ps ! i)"
        and bp': "bp' = Some (page_number (ps ! i))" and bs': "bs' = ?sc (ps ! i)"
        and mx: "\<forall>j<length ps. ?sc (ps ! j) \<le> ?sc (ps ! i)"
        and fst: "\<forall>j<i. ?sc (ps ! j) < ?sc (ps ! i)"
        by blast
      have "\<forall>j<length (p # ps). ?sc ((p # ps) ! j) \<le> ?sc ((p # ps) ! Suc i)"
        using mx gt by (simp add: nth_Cons split: nat.split)
      moreover have "\<forall>j<Suc i. ?sc ((p # ps) ! j) < ?sc ((p # ps) ! Suc i)"
        using fst gt by (simp add: nth_Cons split: nat.split)
      moreover have "bs < ?sc ((p # ps) ! Suc i)"
        using gt True by simp
      ultimately have "\<exists>i<length (p # ps). bs < ?sc ((p # ps) ! i)
            \<and> bp' = Some (page_number ((p # ps) ! i)) \<and> bs' = ?sc ((p # ps) ! i)
            \<and> (\<forall>j<length (p # ps). ?sc ((p # ps) ! j) \<le> ?sc ((p # ps) ! i))
            \<and> (\<forall>j<i. ?sc ((p # ps) ! j) < ?sc ((p # ps) ! i))"
        using i bp' bs' by (intro exI [of _ "Suc i"]) simp
      with unf r show ?thesis by simp
    qed
  next
    case False
    then have unf: "best_loop tokens (p # ps) (bp, bs) = best_loop tokens ps (bp, bs)"
      by simp
    from Cons.IH [of bp bs]
    obtain bp' bs' where r: "best_loop tokens ps (bp, bs) = (bp', bs')"
      and d: "((\<forall>j<length ps. ?sc (ps ! j) \<le> bs) \<and> bp' = bp \<and> bs' = bs)
      \<or> (\<exists>i<length ps. bs < ?sc (ps ! i)
            \<and> bp' = Some (page_number (ps ! i)) \<and> bs' = ?sc (ps ! i)
            \<and> (\<forall>j<length ps. ?sc (ps ! j) \<le> ?sc (ps ! i))
            \<and> (\<forall>j<i. ?sc (ps ! j) < ?sc (ps ! i)))"
      by blast
    from d show ?thesis
    proof
      assume a: "(\<forall>j<length ps. ?sc (ps ! j) \<le> bs) \<and> bp' = bp \<and> bs' = bs"
      have "\<forall>j<length (p # ps). ?sc ((p # ps) ! j) \<le> bs"
        using a False by (simp add: nth_Cons split: nat.split)
      with unf r a show ?thesis by simp
    next
      assume "\<exists>i<length ps. bs < ?sc (ps ! i)
            \<and> bp' = Some (page_number (ps ! i)) \<and> bs' = ?sc (ps ! i)
            \<and> (\<forall>j<length ps. ?sc (ps ! j) \<le> ?sc (ps ! i))
            \<and> (\<forall>j<i. ?sc (ps ! j) < ?sc (ps ! i))"
      then obtain i where i: "i < length ps" and gt: "bs < ?sc (ps ! i)"
        and bp': "bp' = Some (page_number (ps ! i))" and bs': "bs' = ?sc (ps ! i)"
        and mx: "\<forall>j<length ps. ?sc (ps ! j) \<le> ?sc (ps ! i)"
        and fst: "\<forall>j<i. ?sc (ps ! j) < ?sc (ps ! i)"
        by blast
      have "\<forall>j<length (p # ps). ?sc ((p # ps) ! j) \<le> ?sc ((p # ps) ! Suc i)"
        using mx gt False by (simp add: nth_Cons split: nat.split)
      moreover have "\<forall>j<Suc i. ?sc ((p # ps) ! j) < ?sc ((p # ps) ! Suc i)"
        using fst gt False by (simp add: nth_Cons split: nat.split)
      moreover have "bs < ?sc ((p # ps) ! Suc i)"
        using gt by simp
      ultimately have "\<exists>i<length (p # ps). bs < ?sc ((p # ps) ! i)
            \<and> bp' = Some (page_number ((p # ps) ! i)) \<and> bs' = ?sc ((p # ps) ! i)
            \<and> (\<forall>j<length (p # ps). ?sc ((p # ps) ! j) \<le> ?sc ((p # ps) ! i))
            \<and> (\<forall>j<i. ?sc ((p # ps) ! j) < ?sc ((p # ps) ! i))"
        using i bp' bs' by (intro exI [of _ "Suc i"]) simp
      with unf r show ?thesis by simp
    qed
  qed
qed

lemma page_score_no_tokens: "page_score [] p = 0"
  by (simp add: page_score_def)

lemma best_loop_no_tokens: "best_loop [] ps (None, 0) = (None, 0)"
  by (induction ps) (simp_all add: page_score_no_tokens)

lemma tokens_of_falsy: "tokens_of None = []" "tokens_of (Some []) = []"
  by (simp_all add: tokens_of_def or_empty_def normalize_chain_empty)

lemma detectMatchedPage_loop:
  "detectMatchedPage sectionText documentData
     = fst (best_loop (tokens_of sectionText) (pages_of documentData) (None, 0))"
proof (cases "tokens_of sectionText = []")
  case True
  then show ?thesis
    by (auto simp: detectMatchedPage_def pages_of_def best_loop_no_tokens
             split: option.splits)
next
  case False
  have "sectionText \<noteq> None"
  proof
    assume "sectionText = None"
    with False show False by (simp add: tokens_of_falsy)
  qed
  moreover have "sectionText \<noteq> Some []"
  proof
    assume "sectionText = Some []"
    with False show False by (simp add: tokens_of_falsy)
  qed
  ultimately show ?thesis
    using False
    by (auto simp: detectMatchedPage_def pages_of_def Let_def split: option.splits)
qed

text \<open>
  Claim C1. For every document and every excerpt, \<open>detectMatchedPage\<close> returns a page
  number exactly when it is the number of the first page, in the order of the index,
  whose score is the highest of all pages and greater than 0: no page scores more, and
  every earlier page scores strictly less, so a later page with the same score never
  replaces it. It returns \<open>null\<close> exactly when every page scores 0 (which includes a
  missing document, an empty index, a missing or empty excerpt and an excerpt without
  tokens).
\<close>

theorem detectMatchedPage_first_best:
  "(detectMatchedPage sectionText documentData = Some n \<longleftrightarrow>
      (\<exists>i<length (pages_of documentData).
         n = page_number (pages_of documentData ! i)
         \<and> 0 < page_score (tokens_of sectionText) (pages_of documentData ! i)
         \<and> (\<forall>j<length (pages_of documentData).
               page_score (tokens_of sectionText) (pages_of documentData ! j)
                 \<le> page_score (tokens_of sectionText) (pages_of documentData ! i))
         \<and> (\<forall>j<i. page_score (tokens_of sectionText) (pages_of documentData ! j)
                 < page_score (tokens_of sectionText) (pages_of documentData ! i))))
   \<and> (detectMatchedPage sectionText documentData = None \<longleftrightarrow>
      (\<forall>i<length (pages_of documentData).
         page_score (tokens_of sectionText) (pages_of documentData ! i) = 0))"
proof -
  let ?ps = "pages_of documentData"
  let ?sc = "\<lambda>i. page_score (tokens_of sectionText) (?ps ! i)"
  let ?best = "\<lambda>i. i < length ?ps \<and> 0 < ?sc i \<and> (\<forall>j<length ?ps. ?sc j \<le> ?sc i) \<and> (\<forall>j<i. ?sc j < ?sc i)"
  have uniq: "i = k" if "?best i" and "?best k" for i k
  proof (rule ccontr)
    assume "i \<noteq> k"
    then consider "i < k" | "k < i" by linarith
    then show False
    proof cases
      case 1
      with that have "?sc i < ?sc k" and "?sc k \<le> ?sc i" by auto
      then show False by simp
    next
      case 2
      with that have "?sc k < ?sc i" and "?sc i \<le> ?sc k" by auto
      then show False by simp
    qed
  qed
  from best_loop_spec [of "tokens_of sectionText" ?ps None 0]
  consider (none) "detectMatchedPage sectionText documentData = None" "\<forall>j<length ?ps. ?sc j = 0"
    | (some) i where "detectMatchedPage sectionText documentData = Some (page_number (?ps ! i))" "?best i"
    by (auto simp: detectMatchedPage_loop)
  then show ?thesis
  proof cases
    case none
    then show ?thesis by auto
  next
    case (some i)
    have "(\<exists>k. ?best k \<and> n = page_number (?ps ! k)) \<longleftrightarrow> n = page_number (?ps ! i)"
      using some(2) uniq by blast
    moreover have "\<not> (\<forall>j<length ?ps. ?sc j = 0)"
      using some(2) by auto
    ultimately show ?thesis
      using some(1) by auto
  qed
qed

theorem detectMatchedPage_first_best_witness:
  "detectMatchedPage (Some ''bananas crocodile diagram'')
     (Some \<lparr>num_pages = 3, pages = Some
        [\<lparr>page_number = 1, page_text = Some ''alphabet bananas''\<rparr>,
         \<lparr>page_number = 2, page_text = Some ''alphabet crocodile diagram''\<rparr>,
         \<lparr>page_number = 3, page_text = Some ''Croco- \<newline>dile   DIAGRAM''\<rparr>]\<rparr>) = Some 2"
proof -
  let ?pa = "\<lparr>page_number = 1, page_text = Some ''alphabet bananas''\<rparr>"
  let ?pb = "\<lparr>page_number = 2, page_text = Some ''alphabet crocodile diagram''\<rparr>"
  let ?pc = "\<lparr>page_number = 3, page_text = Some ''Croco- \<newline>dile   DIAGRAM''\<rparr>"
  let ?doc = "Some \<lparr>num_pages = 3, pages = Some [?pa, ?pb, ?pc]\<rparr>"
  let ?toks = "[''bananas'', ''crocodile'', ''diagram'']"
  have toks: "tokens_of (Some ''bananas crocodile diagram'') = ?toks"
    by (simp add: tokens_of_def or_empty_def normalize_chain_def trim_def toLowerCase_def
          to_lower_def is_space_def char_of_def bit_Suc_0_iff)
  have ps: "pages_of ?doc = [?pa, ?pb, ?pc]"
    by (simp add: pages_of_def)
  have s1: "page_score ?toks ?pa = 1"
    by (simp add: page_score_def or_empty_def normalize_chain_def trim_def toLowerCase_def
          to_lower_def is_space_def char_of_def bit_Suc_0_iff)
  have s2: "page_score ?toks ?pb = 2"
    by (simp add: page_score_def or_empty_def normalize_chain_def trim_def toLowerCase_def
          to_lower_def is_space_def char_of_def bit_Suc_0_iff)
  have s3: "page_score ?toks ?pc = 2"
    by (simp add: page_score_def or_empty_def normalize_chain_def trim_def toLowerCase_def
          to_lower_def is_space_def break_len_def char_of_def bit_Suc_0_iff)
  have "\<exists>i<length (pages_of ?doc).
         (2::int) = page_number (pages_of ?doc ! i)
         \<and> 0 < page_score (tokens_of (Some ''bananas crocodile diagram'')) (pages_of ?doc ! i)
         \<and> (\<forall>j<length (pages_of ?doc).
               page_score (tokens_of (Some ''bananas crocodile diagram'')) (pages_of ?doc ! j)
                 \<le> page_score (tokens_of (Some ''bananas crocodile diagram'')) (pages_of ?doc ! i))
         \<and> (\<forall>j<i. page_score (tokens_of (Some ''bananas crocodile diagram'')) (pages_of ?doc ! j)
                 < page_score (tokens_of (Some ''bananas crocodile diagram'')) (pages_of ?doc ! i))"
    unfolding toks ps
    by (rule exI [of _ 1]) (simp add: s1 s2 s3 All_less_Suc numeral_3_eq_3)
  then show ?thesis
    using detectMatchedPage_first_best [of "Some ''bananas crocodile diagram''" ?doc 2]
    by blast
qed

section \<open>Properties of the highlight handler\<close>

lemma call_miss:
  assumes "20 \<le> length t" and "highlightCache st (hashKey t) = None"
  shows "handleHighlightSection (Some t) st =
           (Awaiting (length (posted st)),
            st\<lparr>isHighlighting := True, posted := posted st @ [t],
               awaiting := awaiting st @ [length (posted st)]\<rparr>)"
proof -
  from assms(1) have "t \<noteq> []" and "\<not> length t < 20" by auto
  with assms(2) show ?thesis
    by (simp add: handleHighlightSection_def)
qed

lemma call_hit:
  assumes "20 \<le> length t" and "highlightCache st (hashKey t) = Some cached"
  shows "handleHighlightSection (Some t) st =
           (Returned, st\<lparr>pdfBlobUrl := blobUrl cached, isHighlighting := False\<rparr>)"
proof -
  from assms(1) have "t \<noteq> []" and "\<not> length t < 20" by auto
  with assms(2) show ?thesis
    by (simp add: handleHighlightSection_def)
qed

lemma call_short:
  "length t < 20 \<Longrightarrow> handleHighlightSection (Some t) st = (Returned, st)"
  by (simp add: handleHighlightSection_def)

lemma resume_ok:
  "resume t (Ok b) st =
     (Inr (),
      st\<lparr>objectUrls := objectUrls st @ [b],
         pdfBlobUrl := ObjectUrl (length (objectUrls st)),
         highlightCache := (highlightCache st)
           (hashKey t \<mapsto> \<lparr>blobUrl = ObjectUrl (length (objectUrls st)), cached_text = t\<rparr>),
         timers := Suc (timers st)\<rparr>)"
  by (simp add: resume_def try_block_def createObjectURL_def)

lemma resume_failed:
  "resume t (Failed msg) st =
     (Inr (), st\<lparr>console := console st @ [''Error highlighting PDF:''], timers := Suc (timers st)\<rparr>)"
  by (simp add: resume_def try_block_def)

lemma step_answer:
  "n \<in> set (awaiting st) \<Longrightarrow> n < length (posted st) \<Longrightarrow>
   step (Answer n r) st = snd (resume (posted st ! n) r (st\<lparr>awaiting := removeAll n (awaiting st)\<rparr>))"
  by (simp add: step_def)

lemma step_call: "step (Call sectionText) st = snd (handleHighlightSection sectionText st)"
  by (simp add: step_def)

lemma answer_ok:
  assumes "n \<in> set (awaiting st)" and "n < length (posted st)"
  shows "step (Answer n (Ok b)) st =
     st\<lparr>awaiting := removeAll n (awaiting st),
        objectUrls := objectUrls st @ [b],
        pdfBlobUrl := ObjectUrl (length (objectUrls st)),
        highlightCache := (highlightCache st)
          (hashKey (posted st ! n) \<mapsto>
             \<lparr>blobUrl = ObjectUrl (length (objectUrls st)), cached_text = posted st ! n\<rparr>),
        timers := Suc (timers st)\<rparr>"
  using assms by (simp add: step_answer resume_ok)

lemma answer_failed:
  assumes "n \<in> set (awaiting st)" and "n < length (posted st)"
  shows "step (Answer n (Failed msg)) st =
     st\<lparr>awaiting := removeAll n (awaiting st),
        console := console st @ [''Error highlighting PDF:''],
        timers := Suc (timers st)\<rparr>"
  using assms by (simp add: step_answer resume_failed)

lemma call_cached:
  assumes "highlightCache st (hashKey t) = Some cached"
  shows "fst (handleHighlightSection (Some t) st) = Returned
   \<and> posted (snd (handleHighlightSection (Some t) st)) = posted st
   \<and> awaiting (snd (handleHighlightSection (Some t) st)) = awaiting st
   \<and> highlightCache (snd (handleHighlightSection (Some t) st)) = highlightCache st"
proof (cases "20 \<le> length t")
  case True
  with assms show ?thesis by (simp add: call_hit)
next
  case False
  then show ?thesis by (simp add: call_short)
qed

text \<open>
  Claim C9. For every excerpt shorter than 20 characters (and for a missing one) the
  handler returns at once and leaves the whole state as it was: no request is posted,
  and the cache, the displayed URL and the highlighting flag are unchanged.
\<close>

theorem short_excerpt_is_noop:
  "handleHighlightSection None st = (Returned, st)
   \<and> (length t < 20 \<longrightarrow>
        handleHighlightSection (Some t) st = (Returned, st)
        \<and> posted (step (Call (Some t)) st) = posted st
        \<and> highlightCache (step (Call (Some t)) st) = highlightCache st
        \<and> pdfBlobUrl (step (Call (Some t)) st) = pdfBlobUrl st
        \<and> isHighlighting (step (Call (Some t)) st) = isHighlighting st)"
  by (simp add: step_call call_short) (simp add: handleHighlightSection_def)

theorem short_excerpt_is_noop_witness:
  "length ''nineteen characters'' < 20
   \<and> handleHighlightSection (Some ''nineteen characters'') initial_app = (Returned, initial_app)
   \<and> posted (step (Call (Some ''nineteen characters'')) initial_app) = []"
  using short_excerpt_is_noop [of initial_app "''nineteen characters''"]
  by (simp add: initial_app_def)

text \<open>
  Claim C6. For every excerpt whose key has an entry in the cache, the handler returns
  at once without posting a request, and (the excerpt having the 20 characters the
  handler asks for) shows the stored URL and clears the highlighting flag; nothing else
  changes. So once a request for a text has been answered, asking for the same text
  again posts nothing.
\<close>

theorem cache_hit_skips_producer:
  "(highlightCache st (hashKey t) = Some cached \<longrightarrow>
      fst (handleHighlightSection (Some t) st) = Returned
      \<and> posted (snd (handleHighlightSection (Some t) st)) = posted st
      \<and> awaiting (snd (handleHighlightSection (Some t) st)) = awaiting st
      \<and> highlightCache (snd (handleHighlightSection (Some t) st)) = highlightCache st
      \<and> (20 \<le> length t \<longrightarrow>
           snd (handleHighlightSection (Some t) st)
             = st\<lparr>pdfBlobUrl := blobUrl cached, isHighlighting := False\<rparr>))
   \<and> (n \<in> set (awaiting st) \<and> n < length (posted st) \<longrightarrow>
        posted (step (Call (Some (posted st ! n))) (step (Answer n (Ok b)) st)) = posted st)"
proof (intro conjI impI)
  assume "n \<in> set (awaiting st) \<and> n < length (posted st)"
  then have n: "n \<in> set (awaiting st)" "n < length (posted st)" by simp_all
  let ?sb = "step (Answer n (Ok b)) st"
  have "highlightCache ?sb (hashKey (posted st ! n))
          = Some \<lparr>blobUrl = ObjectUrl (length (objectUrls st)), cached_text = posted st ! n\<rparr>"
    using n by (simp add: answer_ok)
  from call_cached [OF this]
  have "posted (step (Call (Some (posted st ! n))) ?sb) = posted ?sb"
    by (simp add: step_call)
  also have "\<dots> = posted st"
    using n by (simp add: answer_ok)
  finally show "posted (step (Call (Some (posted st ! n))) ?sb) = posted st" .
qed (simp_all add: call_cached call_hit)

theorem cache_hit_skips_producer_witness:
  "snd (handleHighlightSection (Some ''The quick brown fox jumps'')
          (run [Call (Some ''The quick brown fox jumps''), Answer 0 (Ok ''highlighted pdf'')]
             initial_app))
     = (run [Call (Some ''The quick brown fox jumps''), Answer 0 (Ok ''highlighted pdf'')]
             initial_app)\<lparr>pdfBlobUrl := ObjectUrl 0, isHighlighting := False\<rparr>
   \<and> posted (run [Call (Some ''The quick brown fox jumps''), Answer 0 (Ok ''highlighted pdf''),
                  Call (Some ''The quick brown fox jumps'')] initial_app)
       = [''The quick brown fox jumps'']"
proof -
  let ?t = "''The quick brown fox jumps''"
  let ?sa = "run [Call (Some ?t)] initial_app"
  let ?st = "run [Call (Some ?t), Answer 0 (Ok ''highlighted pdf'')] initial_app"
  let ?e = "\<lparr>blobUrl = ObjectUrl 0, cached_text = ?t\<rparr>"
  have st0: "?sa = initial_app\<lparr>isHighlighting := True, posted := [?t], awaiting := [0]\<rparr>"
    by (simp add: run_def step_call handleHighlightSection_def initial_app_def)
  have aw: "0 \<in> set (awaiting ?sa) \<and> 0 < length (posted ?sa)"
    unfolding st0 by (simp add: initial_app_def)
  have p0: "posted ?sa ! 0 = ?t" and p: "posted ?sa = [?t]"
    unfolding st0 by (simp_all add: initial_app_def)
  have st: "?st = step (Answer 0 (Ok ''highlighted pdf'')) ?sa"
    by (simp add: run_def)
  have ou: "objectUrls ?sa = []"
    unfolding st0 by (simp add: initial_app_def)
  have hit: "highlightCache ?st (hashKey ?t) = Some ?e"
    unfolding st using aw by (simp add: answer_ok p0 ou)
  have len: "20 \<le> length ?t" by simp
  from cache_hit_skips_producer [of ?st ?t ?e 0 "''highlighted pdf''"] hit len
  have a: "snd (handleHighlightSection (Some ?t) ?st)
             = ?st\<lparr>pdfBlobUrl := blobUrl ?e, isHighlighting := False\<rparr>"
    by blast
  from cache_hit_skips_producer [of ?sa ?t ?e 0 "''highlighted pdf''"] aw
  have "posted (step (Call (Some (posted ?sa ! 0))) (step (Answer 0 (Ok ''highlighted pdf'')) ?sa))
          = posted ?sa"
    by blast
  moreover have "run [Call (Some ?t), Answer 0 (Ok ''highlighted pdf''), Call (Some ?t)] initial_app
          = step (Call (Some ?t)) (step (Answer 0 (Ok ''highlighted pdf'')) ?sa)"
    by (simp add: run_def)
  ultimately have b: "posted (run [Call (Some ?t), Answer 0 (Ok ''highlighted pdf''), Call (Some ?t)] initial_app)
          = [?t]"
    by (simp add: p0 p)
  from a b show ?thesis by simp
qed

text \<open>
  Claim C3, as stated, fails: the handler keeps no record of the requests in flight.
  Two calls with the same text, the second before the first is answered, post two
  requests.
\<close>

theorem coalescing_counterexample:
  "posted (run [Call (Some ''The quick brown fox jumps''), Call (Some ''The quick brown fox jumps'')]
             initial_app)
     = [''The quick brown fox jumps'', ''The quick brown fox jumps'']
   \<and> awaiting (run [Call (Some ''The quick brown fox jumps''), Call (Some ''The quick brown fox jumps'')]
             initial_app) = [0, 1]"
  by (simp add: run_def step_call handleHighlightSection_def initial_app_def)

text \<open>
  Claim C3, amended. A call for a text of at least 20 characters whose key has no
  entry in the cache always posts a request of its own, whether or not a request for
  the same text is in flight: two such calls in a row with the same text post two
  requests, both then waiting, and the cache is unchanged until an answer arrives.
\<close>

theorem two_misses_two_posts:
  assumes "20 \<le> length t" and "highlightCache st (hashKey t) = None"
  shows "posted (run [Call (Some t), Call (Some t)] st) = posted st @ [t, t]
   \<and> awaiting (run [Call (Some t), Call (Some t)] st)
        = awaiting st @ [length (posted st), Suc (length (posted st))]
   \<and> highlightCache (run [Call (Some t), Call (Some t)] st) = highlightCache st"
proof -
  let ?sb = "step (Call (Some t)) st"
  have st1: "?sb = st\<lparr>isHighlighting := True, posted := posted st @ [t],
               awaiting := awaiting st @ [length (posted st)]\<rparr>"
    using assms by (simp add: step_call call_miss)
  then have "highlightCache ?sb (hashKey t) = None"
    using assms(2) by simp
  with assms(1) have "step (Call (Some t)) ?sb
      = ?sb\<lparr>isHighlighting := True, posted := posted ?sb @ [t],
               awaiting := awaiting ?sb @ [length (posted ?sb)]\<rparr>"
    by (simp add: step_call call_miss)
  then show ?thesis
    by (simp add: run_def st1)
qed

theorem two_misses_two_posts_witness:
  "posted (run [Call (Some ''The quick brown fox jumps''), Call (Some ''The quick brown fox jumps'')]
             (run [Call (Some ''The quick brown fox jumps'')] initial_app))
     = [''The quick brown fox jumps'', ''The quick brown fox jumps'', ''The quick brown fox jumps'']"
proof -
  let ?t = "''The quick brown fox jumps''"
  let ?st = "run [Call (Some ?t)] initial_app"
  have st: "?st = initial_app\<lparr>isHighlighting := True, posted := [?t], awaiting := [0]\<rparr>"
    by (simp add: run_def step_call handleHighlightSection_def initial_app_def)
  have "20 \<le> length ?t" by simp
  moreover have "highlightCache ?st (hashKey ?t) = None"
    unfolding st by (simp add: initial_app_def)
  ultimately have "posted (run [Call (Some ?t), Call (Some ?t)] ?st) = posted ?st @ [?t, ?t]"
    using two_misses_two_posts [of ?t ?st] by blast
  then show ?thesis unfolding st by (simp add: initial_app_def)
qed

text \<open>
  Claim C4, as stated, fails: the handler has no generation token and shows every
  answer when it arrives. With A issued before B and B answered before A, the viewer
  ends on the result of A.
\<close>

theorem last_request_wins_counterexample:
  "displayed (run [Call (Some ''first excerpt, issued as A''),
                   Call (Some ''second excerpt, issued as B''),
                   Answer 1 (Ok ''pdf for B''),
                   Answer 0 (Ok ''pdf for A'')] initial_app) = Some ''pdf for A''"
  by (simp add: run_def step_def handleHighlightSection_def initial_app_def resume_ok displayed_def)

text \<open>
  Claim C4, amended. The displayed URL follows the last answer, not the last request:
  whenever a request in flight is answered with a blob, the viewer shows a new object
  URL for that blob, whichever requests were issued after it, and the cache stores that
  URL under the key of the request's text. So of two requests A and B, the one
  answered last is the one on display.
\<close>

theorem last_answer_wins:
  assumes "n \<in> set (awaiting st)" and "n < length (posted st)"
  shows "displayed (step (Answer n (Ok b)) st) = Some b
   \<and> pdfBlobUrl (step (Answer n (Ok b)) st) = ObjectUrl (length (objectUrls st))
   \<and> highlightCache (step (Answer n (Ok b)) st) (hashKey (posted st ! n))
        = Some \<lparr>blobUrl = ObjectUrl (length (objectUrls st)), cached_text = posted st ! n\<rparr>"
  using assms by (simp add: answer_ok displayed_def)

theorem last_answer_wins_witness:
  "displayed (run [Call (Some ''first excerpt, issued as A''),
                   Call (Some ''second excerpt, issued as B''),
                   Answer 0 (Ok ''pdf for A''),
                   Answer 1 (Ok ''pdf for B'')] initial_app) = Some ''pdf for B''"
proof -
  let ?st = "run [Call (Some ''first excerpt, issued as A''),
                  Call (Some ''second excerpt, issued as B''),
                  Answer 0 (Ok ''pdf for A'')] initial_app"
  have aw: "awaiting ?st = [1]" and po: "length (posted ?st) = 2"
    by (simp_all add: run_def step_def handleHighlightSection_def initial_app_def resume_ok)
  have "1 \<in> set (awaiting ?st)" and "1 < length (posted ?st)"
    by (simp_all add: aw po)
  then have "displayed (step (Answer 1 (Ok ''pdf for B'')) ?st) = Some ''pdf for B''"
    using last_answer_wins [of 1 ?st "''pdf for B''"] by blast
  then show ?thesis by (simp add: run_def)
qed

text \<open>
  Claim C5, as stated, fails in its second part: the handler catches the failure of
  the request, so the promise of the call is fulfilled, not rejected, and the caller
  sees no failure.
\<close>

theorem failure_rejects_counterexample:
  "fst (resume ''The quick brown fox jumps'' (Failed ''Network Error'')
          (snd (handleHighlightSection (Some ''The quick brown fox jumps'') initial_app))) = Inr ()"
  by (simp add: resume_failed)

text \<open>
  Claim C5, amended. When the request fails, nothing is stored in the cache and the
  displayed URL stays; the handler catches the failure and writes it to the console,
  and its call completes normally for the caller; a later call with the same text (its
  key still without an entry) posts a new request.
\<close>

theorem failure_is_logged_not_cached:
  assumes "n \<in> set (awaiting st)" and "n < length (posted st)"
  shows "fst (resume (posted st ! n) (Failed msg) st) = Inr ()
   \<and> highlightCache (step (Answer n (Failed msg)) st) = highlightCache st
   \<and> pdfBlobUrl (step (Answer n (Failed msg)) st) = pdfBlobUrl st
   \<and> console (step (Answer n (Failed msg)) st) = console st @ [''Error highlighting PDF:'']
   \<and> (20 \<le> length (posted st ! n) \<and> highlightCache st (hashKey (posted st ! n)) = None \<longrightarrow>
        posted (step (Call (Some (posted st ! n))) (step (Answer n (Failed msg)) st))
          = posted st @ [posted st ! n])"
proof -
  let ?sb = "step (Answer n (Failed msg)) st"
  have st1: "?sb = st\<lparr>awaiting := removeAll n (awaiting st),
        console := console st @ [''Error highlighting PDF:''],
        timers := Suc (timers st)\<rparr>"
    using assms by (rule answer_failed)
  have "posted (step (Call (Some (posted st ! n))) ?sb) = posted st @ [posted st ! n]"
    if "20 \<le> length (posted st ! n)" and "highlightCache st (hashKey (posted st ! n)) = None"
  proof -
    from that(2) have "highlightCache ?sb (hashKey (posted st ! n)) = None"
      by (simp add: st1)
    with that(1) show ?thesis
      by (simp add: step_call call_miss) (simp add: st1)
  qed
  then show ?thesis
    by (simp add: resume_failed) (simp add: st1)
qed

theorem failure_is_logged_not_cached_witness:
  "posted (run [Call (Some ''The quick brown fox jumps''), Answer 0 (Failed ''Network Error''),
                Call (Some ''The quick brown fox jumps'')] initial_app)
     = [''The quick brown fox jumps'', ''The quick brown fox jumps'']
   \<and> highlightCache (run [Call (Some ''The quick brown fox jumps''), Answer 0 (Failed ''Network Error'')]
        initial_app) = Map.empty"
proof -
  let ?t = "''The quick brown fox jumps''"
  let ?st = "run [Call (Some ?t)] initial_app"
  have st: "?st = initial_app\<lparr>isHighlighting := True, posted := [?t], awaiting := [0]\<rparr>"
    by (simp add: run_def step_call handleHighlightSection_def initial_app_def)
  have a: "0 \<in> set (awaiting ?st)" and b: "0 < length (posted ?st)"
    unfolding st by (simp_all add: initial_app_def)
  have c: "20 \<le> length (posted ?st ! 0)"
    and d: "highlightCache ?st (hashKey (posted ?st ! 0)) = None"
    and e: "posted ?st ! 0 = ?t" and f: "posted ?st = [?t]" and g: "highlightCache ?st = Map.empty"
    unfolding st by (simp_all add: initial_app_def)
  from failure_is_logged_not_cached [OF a b, of "''Network Error''"] c d
  have "posted (step (Call (Some (posted ?st ! 0))) (step (Answer 0 (Failed ''Network Error'')) ?st))
          = posted ?st @ [posted ?st ! 0]"
    and "highlightCache (step (Answer 0 (Failed ''Network Error'')) ?st) = highlightCache ?st"
    by blast+
  then show ?thesis
    unfolding e f g by (simp add: run_def)
qed

end
